theory Spec2Isabelle
  imports Main
begin

section \<open>The lift simulator of \<open>src/App.tsx\<close>\<close>

text \<open>
  The component \<open>App\<close> keeps the cabin in React state and in two refs, and drives it
  with one asynchronous function, \<open>processQueue\<close>. The embedding below keeps the
  source's names. Three things of the source are made explicit:
  \<^item> every handler runs against the render of the current state, so a handler reads the
    fields of the state it is applied to;
  \<^item> a running \<open>processQueue\<close> is a \<^emph>\<open>task\<close>: the values its closure captured when it
    was called (\<open>currentFloor\<close> and \<open>isDoorOpen\<close> are plain constants of that closure,
    never re-read), the local \<open>target\<close>, and the \<open>await\<close> it is suspended at. The state
    holds a list of tasks, since nothing in the language stops the function from being
    called twice; a timer that fires resumes one of them up to its next \<open>await\<close>;
  \<^item> the audio cues (\<open>announceDoor\<close>, \<open>announceDirection\<close>, \<open>announceArrival\<close>) and
    the display update of a passed floor are appended to an event log, each with the
    number of the trip that produced it (\<open>None\<close> for a cue played by a button handler).
    The log and the trip counter are observers: no branch of the code reads them.
\<close>

subsection \<open>Floor registry and list primitives\<close>

definition FLOORS :: "string list" where
  "FLOORS = [''B2'', ''B1'', ''F1'', ''F2'', ''F3'', ''F4'', ''F5'', ''F6'', ''F7'', ''F8'',
     ''F9'', ''F10'']"

text \<open>\<open>Array.prototype.indexOf\<close>: the first position of the element, \<open>-1\<close> when absent.\<close>

fun indexOf :: "'a list \<Rightarrow> 'a \<Rightarrow> int" where
  "indexOf [] x = - 1"
| "indexOf (y # ys) x =
     (if y = x then 0 else (let r = indexOf ys x in if r < 0 then - 1 else r + 1))"

text \<open>
  \<open>Array.prototype.slice(start, end)\<close>: a negative bound counts from the end, both
  bounds are clamped to the array, and an empty range gives the empty array.
\<close>

definition js_slice :: "'a list \<Rightarrow> int \<Rightarrow> int \<Rightarrow> 'a list" where
  "js_slice xs start fin =
     (let len = int (length xs);
          k = (if start < 0 then max (len + start) 0 else min start len);
          final = (if fin < 0 then max (len + fin) 0 else min fin len)
      in take (nat (final - k)) (drop (nat k) xs))"

definition getFloorIndex :: "string \<Rightarrow> int" where
  "getFloorIndex floor = indexOf FLOORS floor"

subsection \<open>Travel plan (lines 129 to 144 of \<open>processQueue\<close>)\<close>

datatype dir = Up | Down

definition planDirection :: "string \<Rightarrow> string \<Rightarrow> dir" where
  "planDirection current tgt =
     (let currentIdx = getFloorIndex current; targetIdx = getFloorIndex tgt
      in if targetIdx > currentIdx then Up else Down)"

definition floorsToPass :: "string \<Rightarrow> string \<Rightarrow> string list" where
  "floorsToPass current tgt =
     (let currentIdx = getFloorIndex current; targetIdx = getFloorIndex tgt
      in if planDirection current tgt = Up
         then js_slice FLOORS (currentIdx + 1) (targetIdx + 1)
         else rev (js_slice FLOORS targetIdx currentIdx))"

subsection \<open>State\<close>

datatype event =
    door_closed
  | door_opened
  | direction_changed dir
  | floor_passed string
  | floor_arrived string

datatype phase =
    AwaitClose
  | AwaitAnnounce
  | AwaitFloor "string list"
  | AwaitArrival
  | AwaitSettle

record task =
  capturedFloor :: string
  capturedDoorOpen :: bool
  target :: string
  trip :: nat
  pc :: phase

record state =
  currentFloor :: string
  targetFloor :: "string option"
  isMoving :: bool
  isDoorOpen :: bool
  selectedFloors :: "string set"
  direction :: "dir option"
  displayFloor :: string
  callDirection :: "dir option"
  outsideFloor :: string
  audioLoaded :: bool
  elevatorQueue :: "string list"
  isProcessing :: bool
  tasks :: "task list"
  trips :: nat
  trace :: "(nat option \<times> event) list"

definition init_state :: state where
  "init_state = \<lparr> currentFloor = ''F1'', targetFloor = None, isMoving = False,
     isDoorOpen = True, selectedFloors = {}, direction = None, displayFloor = ''F1'',
     callDirection = None, outsideFloor = ''F1'', audioLoaded = False,
     elevatorQueue = [], isProcessing = False, tasks = [], trips = 0, trace = [] \<rparr>"

definition emit :: "nat option \<Rightarrow> event \<Rightarrow> state \<Rightarrow> state" where
  "emit k e s = s\<lparr>trace := trace s @ [(k, e)]\<rparr>"

definition initAudio :: "state \<Rightarrow> state" where
  "initAudio s = (if \<not> audioLoaded s then s\<lparr>audioLoaded := True\<rparr> else s)"

subsection \<open>The trip scheduler \<open>processQueue\<close>, one segment per \<open>await\<close>\<close>

text \<open>Lines 152 to 157: the \<open>for\<close> loop is over; up to \<open>await delay(500)\<close>.\<close>

definition arrive :: "task \<Rightarrow> state \<Rightarrow> state \<times> task option" where
  "arrive t s =
     (emit (Some (trip t)) (floor_arrived (target t)) (s\<lparr>isMoving := False, direction := None\<rparr>),
      Some (t\<lparr>pc := AwaitArrival\<rparr>))"

text \<open>Lines 128 to 136: direction from the captured floor; up to \<open>await delay(1000)\<close>.\<close>

definition determineDirection :: "task \<Rightarrow> state \<Rightarrow> state \<times> task option" where
  "determineDirection t s =
     (let d = planDirection (capturedFloor t) (target t)
      in (emit (Some (trip t)) (direction_changed d) (s\<lparr>direction := Some d\<rparr>),
          Some (t\<lparr>pc := AwaitAnnounce\<rparr>)))"

text \<open>Lines 138 to 147: \<open>setIsMoving(true)\<close>, the pass sequence, entry of the \<open>for\<close> loop.\<close>

definition startMoving :: "task \<Rightarrow> state \<Rightarrow> state \<times> task option" where
  "startMoving t s =
     (let s1 = s\<lparr>isMoving := True\<rparr>; fs = floorsToPass (capturedFloor t) (target t)
      in if fs = [] then arrive t s1 else (s1, Some (t\<lparr>pc := AwaitFloor fs\<rparr>)))"

text \<open>Lines 148 to 150: one iteration of the \<open>for\<close> loop after its delay.\<close>

definition passFloor :: "string \<Rightarrow> string list \<Rightarrow> task \<Rightarrow> state \<Rightarrow> state \<times> task option" where
  "passFloor floor rest t s =
     (let s1 = emit (Some (trip t)) (floor_passed floor) (s\<lparr>currentFloor := floor, displayFloor := floor\<rparr>)
      in if rest = [] then arrive t s1 else (s1, Some (t\<lparr>pc := AwaitFloor rest\<rparr>)))"

text \<open>Lines 159 to 170: door open, the target leaves the selected set; up to \<open>await delay(2000)\<close>.\<close>

definition openDoor :: "task \<Rightarrow> state \<Rightarrow> state \<times> task option" where
  "openDoor t s =
     (emit (Some (trip t)) door_opened
        (s\<lparr>isDoorOpen := True, selectedFloors := selectedFloors s - {target t}\<rparr>),
      Some (t\<lparr>pc := AwaitSettle\<rparr>))"

text \<open>
  Lines 117 to 126 and 173 to 174: the test of the \<open>while\<close> loop, then either the end of
  the function or the start of the next trip. \<open>cf\<close> and \<open>dopen\<close> are the closure's
  \<open>currentFloor\<close> and \<open>isDoorOpen\<close>.
\<close>

definition loopHead :: "string \<Rightarrow> bool \<Rightarrow> state \<Rightarrow> state \<times> task option" where
  "loopHead cf dopen s =
     (case elevatorQueue s of
        [] \<Rightarrow> (s\<lparr>isProcessing := False, targetFloor := None\<rparr>, None)
      | tgt # rest \<Rightarrow>
          (let k = trips s + 1;
               t = \<lparr> capturedFloor = cf, capturedDoorOpen = dopen, target = tgt, trip = k,
                     pc = AwaitClose \<rparr>;
               s1 = s\<lparr>elevatorQueue := rest, targetFloor := Some tgt, trips := k\<rparr>
           in if dopen then (emit (Some k) door_closed (s1\<lparr>isDoorOpen := False\<rparr>), Some t)
              else determineDirection t s1))"

text \<open>A timer fires: the task continues from the \<open>await\<close> it was suspended at.\<close>

definition resume :: "task \<Rightarrow> state \<Rightarrow> state \<times> task option" where
  "resume t s =
     (case pc t of
        AwaitClose \<Rightarrow> determineDirection t s
      | AwaitAnnounce \<Rightarrow> startMoving t s
      | AwaitFloor fs \<Rightarrow> (case fs of [] \<Rightarrow> arrive t s | floor # rest \<Rightarrow> passFloor floor rest t s)
      | AwaitArrival \<Rightarrow> openDoor t s
      | AwaitSettle \<Rightarrow> loopHead (capturedFloor t) (capturedDoorOpen t) s)"

definition step :: "nat \<Rightarrow> state \<Rightarrow> state" where
  "step i s =
     (if i < length (tasks s)
      then (case resume (tasks s ! i) s of
              (s', None) \<Rightarrow> s'\<lparr>tasks := take i (tasks s') @ drop (Suc i) (tasks s')\<rparr>
            | (s', Some t') \<Rightarrow> s'\<lparr>tasks := (tasks s')[i := t']\<rparr>)
      else s)"

text \<open>Lines 112 to 116: the call of \<open>processQueue\<close>, up to its first \<open>await\<close>.\<close>

definition processQueue :: "string \<Rightarrow> bool \<Rightarrow> state \<Rightarrow> state" where
  "processQueue cf dopen s =
     (if isProcessing s \<or> elevatorQueue s = [] then s
      else (case loopHead cf dopen (s\<lparr>isProcessing := True\<rparr>) of
              (s', None) \<Rightarrow> s'
            | (s', Some t) \<Rightarrow> s'\<lparr>tasks := tasks s' @ [t]\<rparr>))"

subsection \<open>Button handlers\<close>

definition handleFloorSelect :: "string \<Rightarrow> state \<Rightarrow> state" where
  "handleFloorSelect floor s =
     (let s0 = initAudio s
      in if floor = currentFloor s \<and> \<not> isMoving s \<and> isDoorOpen s then s0
         else if floor \<notin> selectedFloors s
         then (let s1 = s0\<lparr>selectedFloors := insert floor (selectedFloors s0),
                           elevatorQueue := elevatorQueue s0 @ [floor]\<rparr>
               in if \<not> isProcessing s1 then processQueue (currentFloor s) (isDoorOpen s) s1
                  else s1)
         else s0)"

definition handleCallElevator :: "dir \<Rightarrow> state \<Rightarrow> state" where
  "handleCallElevator d s =
     (let s0 = emit None (direction_changed d) ((initAudio s)\<lparr>callDirection := Some d\<rparr>)
      in if currentFloor s \<noteq> outsideFloor s \<or> isMoving s
         then (let s1 = s0\<lparr>elevatorQueue := outsideFloor s # elevatorQueue s0\<rparr>
               in if \<not> isProcessing s1 then processQueue (currentFloor s) (isDoorOpen s) s1
                  else s1)
         else s0)"

definition handleOutsideFloorSelect :: "string \<Rightarrow> state \<Rightarrow> state" where
  "handleOutsideFloorSelect floor s = (initAudio s)\<lparr>outsideFloor := floor\<rparr>"

definition handleDoorOpen :: "state \<Rightarrow> state" where
  "handleDoorOpen s =
     (let s0 = initAudio s
      in if \<not> isMoving s then emit None door_opened (s0\<lparr>isDoorOpen := True\<rparr>) else s0)"

definition handleDoorClose :: "state \<Rightarrow> state" where
  "handleDoorClose s =
     (let s0 = initAudio s
      in if \<not> isMoving s then emit None door_closed (s0\<lparr>isDoorOpen := False\<rparr>) else s0)"

subsection \<open>The operations of the interface, and what can be reached\<close>

text \<open>
  A hall call names the floor the caller stands on (the floor selector of the outside
  view) and then presses one of the two call buttons. Switching the view
  (\<open>toggleView\<close>) changes only \<open>currentView\<close> and \<open>outsideFloor\<close>; the former is
  read by the rendering alone and the latter is set by the hall call, so the view is not
  part of the state. The page disables some buttons in some states; the handlers
  themselves do not, and \<open>reachable\<close> allows every handler in every state.
\<close>

definition callFromOutside :: "string \<Rightarrow> dir \<Rightarrow> state \<Rightarrow> state" where
  "callFromOutside floor d s = handleCallElevator d (handleOutsideFloorSelect floor s)"

datatype operation =
    SelectFloor string
  | CallFromOutside string dir
  | RequestDoorOpen
  | RequestDoorClose
  | Tick nat

fun apply_op :: "operation \<Rightarrow> state \<Rightarrow> state" where
  "apply_op (SelectFloor floor) s = handleFloorSelect floor s"
| "apply_op (CallFromOutside floor d) s = callFromOutside floor d s"
| "apply_op RequestDoorOpen s = handleDoorOpen s"
| "apply_op RequestDoorClose s = handleDoorClose s"
| "apply_op (Tick i) s = step i s"

fun valid_op :: "operation \<Rightarrow> bool" where
  "valid_op (SelectFloor floor) = (floor \<in> set FLOORS)"
| "valid_op (CallFromOutside floor d) = (floor \<in> set FLOORS)"
| "valid_op _ = True"

fun run :: "operation list \<Rightarrow> state \<Rightarrow> state" where
  "run [] s = s"
| "run (x # xs) s = run xs (apply_op x s)"

inductive reachable :: "state \<Rightarrow> bool" where
  start: "reachable init_state"
| after: "reachable s \<Longrightarrow> valid_op x \<Longrightarrow> reachable (apply_op x s)"



subsection \<open>Invariants of the reachable states\<close>

text \<open>
  \<open>inv_flight\<close>: at most one task, \<open>isProcessing\<close> set exactly while there is one, and
  an empty queue when there is none. \<open>inv_phase\<close> ties \<open>isMoving\<close> and \<open>direction\<close> to
  the \<open>await\<close> the task is suspended at. \<open>inv_trace\<close>: the trip numbers in the log never
  decrease and none exceeds the counter, which is the number of the running trip.
  \<open>inv_selected\<close>: a selected floor is queued or is the target of a trip whose door has
  not opened yet. \<open>inv_audio\<close>: the audio is preloaded once anything has been requested.
\<close>

definition inv_flight :: "state \<Rightarrow> bool" where
  "inv_flight s \<longleftrightarrow> length (tasks s) \<le> 1 \<and> (isProcessing s \<longleftrightarrow> tasks s \<noteq> [])
     \<and> (tasks s = [] \<longrightarrow> elevatorQueue s = [])"

definition phase_ok :: "phase \<Rightarrow> state \<Rightarrow> bool" where
  "phase_ok p s =
     (case p of
        AwaitAnnounce \<Rightarrow> \<not> isMoving s \<and> direction s \<noteq> None
      | AwaitFloor fs \<Rightarrow> isMoving s \<and> direction s \<noteq> None
      | _ \<Rightarrow> \<not> isMoving s \<and> direction s = None)"

definition inv_phase :: "state \<Rightarrow> bool" where
  "inv_phase s \<longleftrightarrow> (\<forall>t \<in> set (tasks s). phase_ok (pc t) s)
     \<and> (tasks s = [] \<longrightarrow> \<not> isMoving s \<and> direction s = None)"

definition tag_le :: "nat option \<times> event \<Rightarrow> nat option \<times> event \<Rightarrow> bool" where
  "tag_le x y = (case (fst x, fst y) of (Some a, Some b) \<Rightarrow> a \<le> b | _ \<Rightarrow> True)"

definition tag_bounded :: "nat \<Rightarrow> nat option \<times> event \<Rightarrow> bool" where
  "tag_bounded n x = (case fst x of Some a \<Rightarrow> a \<le> n | None \<Rightarrow> True)"

definition trace_ok :: "nat \<Rightarrow> (nat option \<times> event) list \<Rightarrow> bool" where
  "trace_ok n tr \<longleftrightarrow> sorted_wrt tag_le tr \<and> (\<forall>x \<in> set tr. tag_bounded n x)"

definition inv_trace :: "state \<Rightarrow> bool" where
  "inv_trace s \<longleftrightarrow> (\<forall>t \<in> set (tasks s). trip t = trips s) \<and> trace_ok (trips s) (trace s)"

definition inv_selected :: "state \<Rightarrow> bool" where
  "inv_selected s \<longleftrightarrow>
     selectedFloors s \<subseteq>
       set (elevatorQueue s) \<union> {target t |t. t \<in> set (tasks s) \<and> pc t \<noteq> AwaitSettle}"

definition inv_audio :: "state \<Rightarrow> bool" where
  "inv_audio s \<longleftrightarrow> (selectedFloors s \<noteq> {} \<or> tasks s \<noteq> [] \<longrightarrow> audioLoaded s)"


text \<open>
  The reading of single flight on the event log: whenever a trip's \<open>door_closed\<close> at
  position \<open>i\<close> is followed by the same trip's \<open>door_opened\<close> at position \<open>k\<close>, every
  entry between them belongs to that trip or to no trip (a cue of a button handler).
\<close>

definition no_interleaving :: "(nat option \<times> event) list \<Rightarrow> bool" where
  "no_interleaving tr \<longleftrightarrow>
     (\<forall>k \<in> {0..<length tr}. \<forall>i \<in> {0..<k}. \<forall>j \<in> {i<..<k}.
        snd (tr ! i) = door_closed \<and> snd (tr ! k) = door_opened
        \<and> fst (tr ! i) \<noteq> None \<and> fst (tr ! k) = fst (tr ! i)
        \<longrightarrow> fst (tr ! j) = None \<or> fst (tr ! j) = fst (tr ! i))"

subsection \<open>Scenarios\<close>

text \<open>
  Each scenario is a sequence of button presses and timer expiries from the initial
  state, all of them offered by the rendered page in the state they are applied to.
\<close>

definition hall_then_cabin :: "operation list" where
  "hall_then_cabin = [SelectFloor ''F2'', Tick 0, CallFromOutside ''F3'' Up, Tick 0, Tick 0,
     Tick 0, Tick 0, Tick 0]"

definition dup_calls :: "operation list" where
  "dup_calls = [CallFromOutside ''F3'' Up, CallFromOutside ''F3'' Up, CallFromOutside ''F3'' Up]"

definition call_then_select :: "operation list" where
  "call_then_select = [SelectFloor ''F5'', CallFromOutside ''F3'' Up, SelectFloor ''F3'']"

definition two_trips :: "operation list" where
  "two_trips = [SelectFloor ''F5'', SelectFloor ''F1'', Tick 0, Tick 0, Tick 0, Tick 0, Tick 0,
     Tick 0, Tick 0, Tick 0, Tick 0, Tick 0, Tick 0, Tick 0]"

definition open_in_hold :: "operation list" where
  "open_in_hold = [SelectFloor ''F5'', RequestDoorOpen, Tick 0, Tick 0]"

definition closed_start :: "operation list" where
  "closed_start = [RequestDoorClose, SelectFloor ''F2'', SelectFloor ''F3'', Tick 0, Tick 0,
     Tick 0, Tick 0, Tick 0]"

definition announce_hold :: "operation list" where
  "announce_hold = [SelectFloor ''F5'', Tick 0]"

definition moving_now :: "operation list" where
  "moving_now = [SelectFloor ''F5'', Tick 0, Tick 0]"


definition call_at_closed_door :: "operation list" where
  "call_at_closed_door = [RequestDoorClose, CallFromOutside ''F1'' Up]"

definition select_at_closed_door :: "operation list" where
  "select_at_closed_door = [RequestDoorClose, SelectFloor ''F1'']"


definition select_once :: "operation list" where
  "select_once = [SelectFloor ''F5'']"

definition door_closed_idle :: "operation list" where
  "door_closed_idle = [RequestDoorClose]"

definition same_floor_trip :: "string \<Rightarrow> operation list" where
  "same_floor_trip F = [SelectFloor F, Tick 0, Tick 0, Tick 0]"

definition call_in_hold :: "operation list" where
  "call_in_hold = [SelectFloor ''F5'', CallFromOutside ''F1'' Up]"

definition select_in_hold :: "operation list" where
  "select_in_hold = [SelectFloor ''F5'', SelectFloor ''F1'']"

definition served_by_hall_call :: "operation list" where
  "served_by_hall_call = [CallFromOutside ''F3'' Up, SelectFloor ''F3'', Tick 0, Tick 0, Tick 0,
     Tick 0, Tick 0, Tick 0]"

text \<open>The part of the state that decides where the cabin goes next.\<close>

definition routing ::
  "state \<Rightarrow> string list \<times> task list \<times> string option \<times> bool \<times> string \<times> bool \<times> bool
     \<times> string set \<times> dir option" where
  "routing s = (elevatorQueue s, tasks s, targetFloor s, isProcessing s, currentFloor s,
     isMoving s, isDoorOpen s, selectedFloors s, direction s)"

section \<open>Proofs\<close>

subsection \<open>Floor registry and travel plan\<close>

lemma indexOf_nth:
  "distinct xs \<Longrightarrow> i < length xs \<Longrightarrow> indexOf xs (xs ! i) = int i"
proof (induction xs arbitrary: i)
  case Nil
  then show ?case by simp
next
  case (Cons y ys)
  show ?case
  proof (cases i)
    case 0
    then show ?thesis by simp
  next
    case (Suc j)
    with Cons.prems have "j < length ys" "distinct ys" "ys ! j \<noteq> y" by auto
    with Cons.IH[of j] Suc show ?thesis by (auto simp: Let_def)
  qed
qed

lemma js_slice_range:
  assumes "i \<le> j" "j \<le> length xs"
  shows "js_slice xs (int i) (int j) = map (\<lambda>k. xs ! k) [i..<j]"
proof -
  have "js_slice xs (int i) (int j) = take (j - i) (drop i xs)"
    using assms by (simp add: js_slice_def Let_def min_def nat_diff_distrib')
  also have "\<dots> = map (\<lambda>k. xs ! k) [i..<j]"
    using assms by (intro nth_equalityI) auto
  finally show ?thesis .
qed

lemma js_slice_empty: "j \<le> i \<Longrightarrow> js_slice xs (int i) (int j) = []"
  by (simp add: js_slice_def Let_def min_def)

lemma distinct_FLOORS: "distinct FLOORS"
  by (simp add: FLOORS_def)

lemma length_FLOORS: "length FLOORS = 12"
  by (simp add: FLOORS_def)

lemma getFloorIndex_nth: "i < length FLOORS \<Longrightarrow> getFloorIndex (FLOORS ! i) = int i"
  by (simp add: getFloorIndex_def indexOf_nth distinct_FLOORS)

lemma floorsToPass_up:
  assumes "i < j" "j < length FLOORS"
  shows "floorsToPass (FLOORS ! i) (FLOORS ! j) = map (\<lambda>k. FLOORS ! k) [Suc i..<Suc j]"
proof -
  have "js_slice FLOORS (int i + 1) (int j + 1) = map (\<lambda>k. FLOORS ! k) [Suc i..<Suc j]"
    using js_slice_range[of "Suc i" "Suc j" FLOORS] assms by (simp add: add.commute)
  then show ?thesis
    using assms by (simp add: floorsToPass_def planDirection_def getFloorIndex_nth)
qed

lemma floorsToPass_down:
  assumes "j \<le> i" "i < length FLOORS"
  shows "floorsToPass (FLOORS ! i) (FLOORS ! j) = rev (map (\<lambda>k. FLOORS ! k) [j..<i])"
  using assms js_slice_range[of j i FLOORS]
  by (simp add: floorsToPass_def planDirection_def getFloorIndex_nth)


text \<open>
  C6. For distinct floors \<open>A\<close>, \<open>B\<close> of the registry the direction is \<open>Up\<close> exactly when
  the index of \<open>B\<close> is greater than the index of \<open>A\<close> and \<open>Down\<close> otherwise; the pass
  sequence lists the floors after \<open>A\<close> up to and including \<open>B\<close> in the order of travel,
  its length is the distance of the two indices, it ends in \<open>B\<close> and does not contain
  \<open>A\<close>; for adjacent floors it is \<open>[B]\<close>.
\<close>

theorem plan_correct:
  assumes "A \<in> set FLOORS" and "B \<in> set FLOORS" and "A \<noteq> B"
  shows "(planDirection A B = Up \<longleftrightarrow> getFloorIndex B > getFloorIndex A)
       \<and> (planDirection A B = Down \<longleftrightarrow> \<not> getFloorIndex B > getFloorIndex A)
       \<and> floorsToPass A B =
            (if getFloorIndex B > getFloorIndex A
             then map (\<lambda>k. FLOORS ! k) [nat (getFloorIndex A) + 1 ..< nat (getFloorIndex B) + 1]
             else rev (map (\<lambda>k. FLOORS ! k) [nat (getFloorIndex B) ..< nat (getFloorIndex A)]))
       \<and> int (length (floorsToPass A B)) = \<bar>getFloorIndex B - getFloorIndex A\<bar>
       \<and> last (floorsToPass A B) = B
       \<and> A \<notin> set (floorsToPass A B)
       \<and> (\<bar>getFloorIndex B - getFloorIndex A\<bar> = 1 \<longrightarrow> floorsToPass A B = [B])"
proof -
  from assms(1) obtain i where i: "i < length FLOORS" "A = FLOORS ! i"
    by (auto simp: in_set_conv_nth)
  from assms(2) obtain j where j: "j < length FLOORS" "B = FLOORS ! j"
    by (auto simp: in_set_conv_nth)
  from assms(3) i j have ne: "i \<noteq> j" by auto
  have ia: "getFloorIndex A = int i" and jb: "getFloorIndex B = int j"
    using i j by (simp_all add: getFloorIndex_nth)
  have dir: "planDirection A B = (if i < j then Up else Down)"
    by (simp add: planDirection_def ia jb)
  show ?thesis
  proof (cases "i < j")
    case True
    have fs: "floorsToPass A B = map (\<lambda>k. FLOORS ! k) [Suc i..<Suc j]"
      using floorsToPass_up[OF True j(1)] i j by simp
    have la: "last (floorsToPass A B) = B"
      unfolding fs using True j(2) by (simp add: last_map)
    have notin: "A \<notin> set (floorsToPass A B)"
      unfolding fs using True i j distinct_FLOORS by (auto simp: nth_eq_iff_index_eq)
    have adj: "\<bar>int j - int i\<bar> = 1 \<Longrightarrow> floorsToPass A B = [B]"
      unfolding fs using True j(2) by simp
    show ?thesis
      using True adj la notin by (simp add: dir ia jb fs)
  next
    case False
    with ne have lt: "j < i" by simp
    have fs: "floorsToPass A B = rev (map (\<lambda>k. FLOORS ! k) [j..<i])"
      using floorsToPass_down[of j i] lt i j by simp
    have la: "last (floorsToPass A B) = B"
      unfolding fs using lt j(2) by (simp add: last_rev hd_map upt_conv_Cons)
    have notin: "A \<notin> set (floorsToPass A B)"
      unfolding fs using lt i j distinct_FLOORS by (auto simp: nth_eq_iff_index_eq)
    have adj: "\<bar>int j - int i\<bar> = 1 \<Longrightarrow> floorsToPass A B = [B]"
    proof -
      assume "\<bar>int j - int i\<bar> = 1"
      with lt have "i = Suc j" by simp
      then show ?thesis unfolding fs using j(2) by simp
    qed
    show ?thesis
      using lt adj la notin by (simp add: dir ia jb fs)
  qed
qed

theorem plan_correct_witness:
  "''F1'' \<in> set FLOORS \<and> ''F5'' \<in> set FLOORS \<and> ''F1'' \<noteq> ''F5''
   \<and> planDirection ''F1'' ''F5'' = Up \<and> floorsToPass ''F1'' ''F5'' = [''F2'', ''F3'', ''F4'', ''F5'']
   \<and> planDirection ''F5'' ''F1'' = Down \<and> floorsToPass ''F5'' ''F1'' = [''F4'', ''F3'', ''F2'', ''F1'']"
proof -
  have a: "''F1'' \<in> set FLOORS" and b: "''F5'' \<in> set FLOORS" and c: "''F1'' \<noteq> ''F5''"
    by (simp_all add: FLOORS_def)
  have i1: "getFloorIndex ''F1'' = 2" and i5: "getFloorIndex ''F5'' = 6"
    by (simp_all add: getFloorIndex_def FLOORS_def)
  have u: "[Suc 2..<Suc 6] = [3, 4, 5, 6]" and d: "[2..<6] = [2, 3, 4, 5::nat]" 
    by (simp_all add: upt_rec)
  show ?thesis
    using plan_correct[OF a b c] plan_correct[OF b a c[symmetric]] a b
    by (simp add: i1 i5 u d) (simp add: FLOORS_def)
qed


subsection \<open>Preservation of the invariants\<close>

lemmas sched_defs = resume_def loopHead_def determineDirection_def startMoving_def
  passFloor_def arrive_def openDoor_def emit_def Let_def

lemmas handler_defs = handleFloorSelect_def handleCallElevator_def handleOutsideFloorSelect_def
  handleDoorOpen_def handleDoorClose_def callFromOutside_def initAudio_def processQueue_def
  loopHead_def determineDirection_def emit_def Let_def

lemma inv_flight_step: "inv_flight s \<Longrightarrow> inv_flight (step i s)"
  by (auto simp: inv_flight_def step_def sched_defs
      split: phase.splits list.splits prod.splits option.splits if_splits)

lemma resume_tasks: "tasks (fst (resume t s)) = tasks s"
  by (simp add: sched_defs split: phase.splits list.splits)

lemma step_single:
  "tasks s = [t] \<Longrightarrow>
   step 0 s = (case resume t s of (s', None) \<Rightarrow> s'\<lparr>tasks := []\<rparr> | (s', Some t') \<Rightarrow> s'\<lparr>tasks := [t']\<rparr>)"
  using resume_tasks[of t s] by (auto simp: step_def split: prod.splits option.splits)

lemma step_cases:
  assumes "inv_flight s"
  obtains (idle) "step i s = s" | (run) t where "tasks s = [t]" and "i = 0"
proof (cases "i < length (tasks s)")
  case False
  then show ?thesis using idle by (simp add: step_def)
next
  case True
  with assms have "i = 0" and "length (tasks s) = 1" by (auto simp: inv_flight_def)
  then obtain t where "tasks s = [t]" by (cases "tasks s") auto
  with \<open>i = 0\<close> show ?thesis using run by blast
qed

lemma inv_phase_step:
  assumes "inv_flight s" and "inv_phase s"
  shows "inv_phase (step i s)"
using assms(1) proof (cases rule: step_cases[where i = i])
  case idle
  then show ?thesis using assms by simp
next
  case (run t)
  then show ?thesis using assms(2)
    by (cases "pc t")
       (auto simp: step_single inv_phase_def phase_ok_def sched_defs split: list.splits)
qed


lemma inv_flight_handlers:
  assumes "inv_flight s"
  shows "inv_flight (handleFloorSelect floor s)" and "inv_flight (callFromOutside floor d s)"
    and "inv_flight (handleDoorOpen s)" and "inv_flight (handleDoorClose s)"
  using assms by (auto simp: inv_flight_def handler_defs split: list.splits if_splits)

lemma inv_flight_op: "inv_flight s \<Longrightarrow> inv_flight (apply_op x s)"
  by (cases x) (simp_all add: inv_flight_step inv_flight_handlers)

lemma inv_phase_handlers:
  assumes "inv_flight s" and "inv_phase s"
  shows "inv_phase (handleFloorSelect floor s)" and "inv_phase (callFromOutside floor d s)"
    and "inv_phase (handleDoorOpen s)" and "inv_phase (handleDoorClose s)"
  using assms
  by (auto simp: inv_flight_def inv_phase_def phase_ok_def handler_defs
      split: list.splits if_splits phase.splits)

lemma inv_phase_op: "inv_flight s \<Longrightarrow> inv_phase s \<Longrightarrow> inv_phase (apply_op x s)"
  by (cases x) (simp_all add: inv_phase_step inv_phase_handlers)

lemma inv_audio_step: "inv_audio s \<Longrightarrow> inv_audio (step i s)"
  by (auto simp: inv_audio_def step_def sched_defs
      split: phase.splits list.splits prod.splits option.splits if_splits)

lemma inv_audio_handlers:
  shows "inv_audio (handleFloorSelect floor s)" and "inv_audio (callFromOutside floor d s)"
    and "inv_audio (handleDoorOpen s)" and "inv_audio (handleDoorClose s)"
  by (auto simp: inv_audio_def handler_defs split: list.splits if_splits)

lemma inv_audio_op: "inv_audio s \<Longrightarrow> inv_audio (apply_op x s)"
  by (cases x) (simp_all add: inv_audio_step inv_audio_handlers)

lemma trace_ok_Some: "trace_ok n tr \<Longrightarrow> n \<le> m \<Longrightarrow> trace_ok m (tr @ [(Some m, e)])"
  by (auto simp: trace_ok_def sorted_wrt_append tag_le_def tag_bounded_def split: option.splits)

lemma trace_ok_None: "trace_ok n tr \<Longrightarrow> trace_ok n (tr @ [(None, e)])"
  by (auto simp: trace_ok_def sorted_wrt_append tag_le_def tag_bounded_def split: option.splits)

lemma trace_ok_Some2:
  "trace_ok n tr \<Longrightarrow> n \<le> m \<Longrightarrow> trace_ok m (tr @ [(Some m, e), (Some m, e')])"
  using trace_ok_Some[OF trace_ok_Some, of n tr m m e e'] by simp

lemma trace_ok_None_Some:
  "trace_ok n tr \<Longrightarrow> n \<le> m \<Longrightarrow> trace_ok m (tr @ [(None, e), (Some m, e')])"
  using trace_ok_Some[OF trace_ok_None, of n tr m e e'] by simp

lemma inv_trace_step:
  assumes "inv_flight s" and "inv_trace s"
  shows "inv_trace (step i s)"
using assms(1) proof (cases rule: step_cases[where i = i])
  case idle
  then show ?thesis using assms by simp
next
  case (run t)
  then show ?thesis using assms(2)
    by (cases "pc t")
       (auto simp: step_single inv_trace_def sched_defs trace_ok_Some trace_ok_Some2
          split: list.splits)
qed

lemma inv_trace_handlers:
  assumes "inv_flight s" and "inv_trace s"
  shows "inv_trace (handleFloorSelect floor s)" and "inv_trace (callFromOutside floor d s)"
    and "inv_trace (handleDoorOpen s)" and "inv_trace (handleDoorClose s)"
  using assms
  by (auto simp: inv_flight_def inv_trace_def handler_defs trace_ok_Some trace_ok_None
      trace_ok_None_Some split: list.splits if_splits)

lemma inv_trace_op: "inv_flight s \<Longrightarrow> inv_trace s \<Longrightarrow> inv_trace (apply_op x s)"
  by (cases x) (simp_all add: inv_trace_step inv_trace_handlers)

lemma inv_selected_step:
  assumes "inv_flight s" and "inv_selected s"
  shows "inv_selected (step i s)"
using assms(1) proof (cases rule: step_cases[where i = i])
  case idle
  then show ?thesis using assms by simp
next
  case (run t)
  then show ?thesis using assms(2)
    by (cases "pc t")
       (auto simp: step_single inv_selected_def sched_defs split: list.splits)
qed

lemma inv_selected_handlers:
  assumes "inv_flight s" and "inv_selected s"
  shows "inv_selected (handleFloorSelect floor s)" and "inv_selected (callFromOutside floor d s)"
    and "inv_selected (handleDoorOpen s)" and "inv_selected (handleDoorClose s)"
  using assms
  by (auto simp: inv_flight_def inv_selected_def handler_defs split: list.splits if_splits)

lemma inv_selected_op: "inv_flight s \<Longrightarrow> inv_selected s \<Longrightarrow> inv_selected (apply_op x s)"
  by (cases x) (simp_all add: inv_selected_step inv_selected_handlers)

lemma inv_init:
  "inv_flight init_state" "inv_phase init_state" "inv_trace init_state" "inv_audio init_state"
  "inv_selected init_state"
  by (simp_all add: init_state_def inv_flight_def inv_phase_def inv_trace_def trace_ok_def
      inv_audio_def inv_selected_def)

lemma reachable_inv:
  assumes "reachable s"
  shows "inv_flight s \<and> inv_phase s \<and> inv_trace s \<and> inv_audio s \<and> inv_selected s"
  using assms
proof (induction rule: reachable.induct)
  case start
  show ?case by (simp add: inv_init)
next
  case (after s x)
  then show ?case
    by (simp add: inv_flight_op inv_phase_op inv_trace_op inv_audio_op inv_selected_op)
qed

lemma reachable_run: "reachable s \<Longrightarrow> list_all valid_op xs \<Longrightarrow> reachable (run xs s)"
  by (induction xs arbitrary: s) (auto intro: reachable.after)

lemma reachable_scenario: "list_all valid_op xs \<Longrightarrow> reachable (run xs init_state)"
  by (rule reachable_run[OF reachable.start])








lemma plan_same_floor: "planDirection F F = Down" and pass_same_floor: "floorsToPass F F = []"
  by (simp_all add: planDirection_def floorsToPass_def js_slice_def Let_def)

lemma sorted_no_interleaving:
  assumes "sorted_wrt tag_le tr"
  shows "no_interleaving tr"
  unfolding no_interleaving_def
proof (intro ballI impI)
  fix k i j
  assume k: "k \<in> {0..<length tr}" and i: "i \<in> {0..<k}" and j: "j \<in> {i<..<k}"
    and h: "snd (tr ! i) = door_closed \<and> snd (tr ! k) = door_opened
       \<and> fst (tr ! i) \<noteq> None \<and> fst (tr ! k) = fst (tr ! i)"
  from h obtain n where n: "fst (tr ! i) = Some n" "fst (tr ! k) = Some n" by auto
  have ij: "tag_le (tr ! i) (tr ! j)" and jk: "tag_le (tr ! j) (tr ! k)"
    using assms i j k by (auto simp: sorted_wrt_iff_nth_less)
  show "fst (tr ! j) = None \<or> fst (tr ! j) = fst (tr ! i)"
    using ij jk n by (cases "fst (tr ! j)") (auto simp: tag_le_def)
qed


subsection \<open>Single flight\<close>

text \<open>
  C4. In every reachable state at most one \<open>processQueue\<close> is running, the ref
  \<open>isProcessing\<close> is set exactly while one is, a call of \<open>processQueue\<close> while one is
  running returns at its guard without any effect, and in the event log no event of
  another trip stands between a trip's \<open>door_closed\<close> and the same trip's \<open>door_opened\<close>.
\<close>

theorem single_flight:
  assumes "reachable s"
  shows "length (tasks s) \<le> 1
       \<and> (isProcessing s \<longleftrightarrow> tasks s \<noteq> [])
       \<and> (tasks s \<noteq> [] \<longrightarrow> processQueue cf dopen s = s)
       \<and> no_interleaving (trace s)"
proof -
  from reachable_inv[OF assms] have f: "inv_flight s" and t: "inv_trace s" by simp_all
  from t have "no_interleaving (trace s)"
    by (simp add: inv_trace_def trace_ok_def sorted_no_interleaving)
  with f show ?thesis by (auto simp: inv_flight_def processQueue_def)
qed

theorem single_flight_witness:
  "reachable (run hall_then_cabin init_state)
   \<and> length (tasks (run hall_then_cabin init_state)) = 1
   \<and> isProcessing (run hall_then_cabin init_state)
   \<and> processQueue ''F1'' True (run hall_then_cabin init_state) = run hall_then_cabin init_state
   \<and> trace (run hall_then_cabin init_state) =
       [(Some 1, door_closed), (Some 1, direction_changed Up), (None, direction_changed Up),
        (Some 1, floor_passed ''F2''), (Some 1, floor_arrived ''F2''), (Some 1, door_opened),
        (Some 2, door_closed), (Some 2, direction_changed Up)]
   \<and> no_interleaving (trace (run hall_then_cabin init_state))"
proof -
  have r: "reachable (run hall_then_cabin init_state)"
    by (rule reachable_run[OF reachable.start]) (simp add: hall_then_cabin_def FLOORS_def)
  have n: "length (tasks (run hall_then_cabin init_state)) = 1"
    unfolding hall_then_cabin_def by code_simp
  have tr: "trace (run hall_then_cabin init_state) =
       [(Some 1, door_closed), (Some 1, direction_changed Up), (None, direction_changed Up),
        (Some 1, floor_passed ''F2''), (Some 1, floor_arrived ''F2''), (Some 1, door_opened),
        (Some 2, door_closed), (Some 2, direction_changed Up)]"
    unfolding hall_then_cabin_def by code_simp
  from n have ne: "tasks (run hall_then_cabin init_state) \<noteq> []" by auto
  show ?thesis
    using single_flight[OF r, of "''F1''" True] r n ne tr by simp
qed

subsection \<open>The request queue\<close>

text \<open>
  C1. The claim: the request queue never holds the same floor twice. \<open>handleCallElevator\<close>
  prepends without any membership test, and \<open>handleFloorSelect\<close> tests the selected set,
  which a hall call never enters. Three hall calls from \<open>F3\<close> leave \<open>F3\<close> twice in the
  queue (the first entry has been dequeued as the target); so does a cabin selection of
  \<open>F3\<close> after a hall call from \<open>F3\<close>.
\<close>

theorem duplicate_queue_entries:
  "reachable (run dup_calls init_state)
   \<and> elevatorQueue (run dup_calls init_state) = [''F3'', ''F3'']
   \<and> reachable (run call_then_select init_state)
   \<and> elevatorQueue (run call_then_select init_state) = [''F3'', ''F3'']"
proof -
  have "reachable (run dup_calls init_state)" "reachable (run call_then_select init_state)"
    by (rule reachable_scenario, simp add: dup_calls_def call_then_select_def FLOORS_def)+
  moreover have "elevatorQueue (run dup_calls init_state) = [''F3'', ''F3'']"
    unfolding dup_calls_def by code_simp
  moreover have "elevatorQueue (run call_then_select init_state) = [''F3'', ''F3'']"
    unfolding call_then_select_def by code_simp
  ultimately show ?thesis by simp
qed

text \<open>
  C5. The claim: a hall call is ignored exactly when the cabin is at the caller's floor,
  idle and with the door open; in every other case the floor is prepended and the
  scheduler started if idle. The guard of \<open>handleCallElevator\<close> reads \<open>currentFloor\<close>
  and \<open>isMoving\<close> but not \<open>isDoorOpen\<close>, which the guard of \<open>handleFloorSelect\<close> does
  read. With the cabin at \<open>F1\<close>, idle, the door closed by hand, a hall call from \<open>F1\<close>
  changes neither queue nor scheduler, whereas the cabin button \<open>F1\<close> starts a trip that
  opens the door. In the door-closing hold of a trip leaving \<open>F1\<close> a hall call from \<open>F1\<close>
  is not queued either, whereas the cabin button \<open>F1\<close> is.
\<close>

theorem hall_call_at_cabin_floor_dropped:
  "reachable (run call_at_closed_door init_state)
   \<and> currentFloor (run door_closed_idle init_state) = ''F1''
   \<and> \<not> isDoorOpen (run door_closed_idle init_state)
   \<and> elevatorQueue (run call_at_closed_door init_state) = []
   \<and> targetFloor (run call_at_closed_door init_state) = None
   \<and> tasks (run call_at_closed_door init_state) = []
   \<and> \<not> isProcessing (run call_at_closed_door init_state)
   \<and> map target (tasks (run select_at_closed_door init_state)) = [''F1'']
   \<and> reachable (run call_in_hold init_state)
   \<and> currentFloor (run select_once init_state) = ''F1''
   \<and> \<not> isDoorOpen (run select_once init_state)
   \<and> elevatorQueue (run call_in_hold init_state) = []
   \<and> map target (tasks (run call_in_hold init_state)) = [''F5'']
   \<and> elevatorQueue (run select_in_hold init_state) = [''F1'']"
proof -
  have "reachable (run call_at_closed_door init_state)" "reachable (run call_in_hold init_state)"
    by (rule reachable_scenario, simp add: call_at_closed_door_def call_in_hold_def FLOORS_def)+
  moreover have "currentFloor (run door_closed_idle init_state) = ''F1''"
    "\<not> isDoorOpen (run door_closed_idle init_state)"
    unfolding door_closed_idle_def by code_simp+
  moreover have "elevatorQueue (run call_at_closed_door init_state) = []"
    "targetFloor (run call_at_closed_door init_state) = None"
    "tasks (run call_at_closed_door init_state) = []"
    "\<not> isProcessing (run call_at_closed_door init_state)"
    unfolding call_at_closed_door_def by code_simp+
  moreover have "map target (tasks (run select_at_closed_door init_state)) = [''F1'']"
    unfolding select_at_closed_door_def by code_simp
  moreover have "currentFloor (run select_once init_state) = ''F1''"
    "\<not> isDoorOpen (run select_once init_state)"
    unfolding select_once_def by code_simp+
  moreover have "elevatorQueue (run call_in_hold init_state) = []"
    "map target (tasks (run call_in_hold init_state)) = [''F5'']"
    unfolding call_in_hold_def by code_simp+
  moreover have "elevatorQueue (run select_in_hold init_state) = [''F1'']"
    unfolding select_in_hold_def by code_simp
  ultimately show ?thesis by simp
qed

text \<open>
  The effect of \<open>handleCallElevator\<close> on queue and scheduler, case by case. The direction
  of the call reaches only \<open>callDirection\<close> and the audio cue, never the routing.
\<close>

lemma callFromOutside_effect:
  "(currentFloor s = F \<and> \<not> isMoving s \<longrightarrow>
      routing (callFromOutside F d s) = routing s)
   \<and> ((currentFloor s \<noteq> F \<or> isMoving s) \<and> isProcessing s \<longrightarrow>
      routing (callFromOutside F d s) = routing (s\<lparr>elevatorQueue := F # elevatorQueue s\<rparr>))
   \<and> ((currentFloor s \<noteq> F \<or> isMoving s) \<and> \<not> isProcessing s \<longrightarrow>
      elevatorQueue (callFromOutside F d s) = elevatorQueue s
      \<and> targetFloor (callFromOutside F d s) = Some F
      \<and> isProcessing (callFromOutside F d s)
      \<and> map (\<lambda>t. (capturedFloor t, capturedDoorOpen t, target t)) (tasks (callFromOutside F d s))
          = map (\<lambda>t. (capturedFloor t, capturedDoorOpen t, target t)) (tasks s)
            @ [(currentFloor s, isDoorOpen s, F)])
   \<and> routing (callFromOutside F d s) = routing (callFromOutside F d' s)"
  by (simp add: routing_def handler_defs)




text \<open>
  With hall calls the target need not be selected: a hall call from \<open>F3\<close> followed by the
  cabin button \<open>F3\<close> serves \<open>F3\<close> twice, the door opening of the first trip clears the
  selection, and a selection of \<open>F3\<close> during the second trip is queued.
\<close>

lemma reselect_after_hall_call:
  "map (\<lambda>t. (target t, pc t)) (tasks (run served_by_hall_call init_state)) = [(''F3'', AwaitClose)]
   \<and> ''F3'' \<notin> selectedFloors (run served_by_hall_call init_state)
   \<and> elevatorQueue (run served_by_hall_call init_state) = []
   \<and> elevatorQueue (handleFloorSelect ''F3'' (run served_by_hall_call init_state)) = [''F3'']"
  unfolding served_by_hall_call_def by code_simp

subsection \<open>Trips\<close>

text \<open>
  C2. The claim: every trip plans from the floor the cabin is at when the trip starts, and
  the cabin is at the target when \<open>floor_arrived\<close> is emitted. \<open>processQueue\<close> reads
  \<open>currentFloor\<close> from its closure, which still holds the floor of the first trip's start.
  With \<open>F5\<close> and then \<open>F1\<close> selected from \<open>F1\<close>, the second trip plans from \<open>F1\<close> to
  \<open>F1\<close>: direction \<open>Down\<close>, no floor passed, and \<open>floor_arrived F1\<close> with the cabin at
  \<open>F5\<close>.
\<close>

theorem stale_floor_second_trip:
  "reachable (run two_trips init_state)
   \<and> trace (run two_trips init_state) =
      [(Some 1, door_closed), (Some 1, direction_changed Up),
       (Some 1, floor_passed ''F2''), (Some 1, floor_passed ''F3''),
       (Some 1, floor_passed ''F4''), (Some 1, floor_passed ''F5''),
       (Some 1, floor_arrived ''F5''), (Some 1, door_opened),
       (Some 2, door_closed), (Some 2, direction_changed Down),
       (Some 2, floor_arrived ''F1''), (Some 2, door_opened)]
   \<and> currentFloor (run two_trips init_state) = ''F5''"
proof -
  have "reachable (run two_trips init_state)"
    by (rule reachable_scenario) (simp add: two_trips_def FLOORS_def)
  moreover have "trace (run two_trips init_state) =
      [(Some 1, door_closed), (Some 1, direction_changed Up),
       (Some 1, floor_passed ''F2''), (Some 1, floor_passed ''F3''),
       (Some 1, floor_passed ''F4''), (Some 1, floor_passed ''F5''),
       (Some 1, floor_arrived ''F5''), (Some 1, door_opened),
       (Some 2, door_closed), (Some 2, direction_changed Down),
       (Some 2, floor_arrived ''F1''), (Some 2, door_opened)]"
    unfolding two_trips_def by code_simp
  moreover have "currentFloor (run two_trips init_state) = ''F5''"
    unfolding two_trips_def by code_simp
  ultimately show ?thesis by simp
qed

text \<open>
  C7, as the claim states it: a request for the cabin's own floor should never reach the
  direction computation. With the door closed by hand at \<open>F1\<close>, selecting \<open>F1\<close> is queued,
  dequeued, and the direction \<open>Down\<close> is announced.
\<close>

theorem same_floor_direction_announced:
  "reachable (run select_at_closed_door init_state)
   \<and> currentFloor (run door_closed_idle init_state) = ''F1''
   \<and> trace (run select_at_closed_door init_state) =
        [(None, door_closed), (Some 1, direction_changed Down)]"
proof -
  have "reachable (run select_at_closed_door init_state)"
    by (rule reachable_scenario) (simp add: select_at_closed_door_def FLOORS_def)
  moreover have "currentFloor (run door_closed_idle init_state) = ''F1''"
    unfolding door_closed_idle_def by code_simp
  moreover have "trace (run select_at_closed_door init_state) =
        [(None, door_closed), (Some 1, direction_changed Down)]"
    unfolding select_at_closed_door_def by code_simp
  ultimately show ?thesis by simp
qed

text \<open>
  C7, amended. With no trip in progress, a selection of the cabin's own floor is filtered
  by \<open>handleFloorSelect\<close> when the door is open: no event, no queue entry. With the door
  closed it runs as a trip of its own: the direction \<open>Down\<close> is announced, the pass
  sequence is empty so that the cabin stays where it is, \<open>floor_arrived\<close> is emitted and
  the door opens; after the settle delay the scheduler is idle again.
\<close>

theorem same_floor_request:
  assumes "reachable s" and "\<not> isProcessing s" and "F = currentFloor s"
  shows "(isDoorOpen s \<longrightarrow> handleFloorSelect F s = initAudio s)
       \<and> (\<not> isDoorOpen s \<longrightarrow>
            run (same_floor_trip F) s =
              s\<lparr>audioLoaded := True, isDoorOpen := True, targetFloor := None,
                trips := trips s + 1,
                trace := trace s @ [(Some (trips s + 1), direction_changed Down),
                                    (Some (trips s + 1), floor_arrived F),
                                    (Some (trips s + 1), door_opened)]\<rparr>)"
proof -
  from reachable_inv[OF assms(1)]
  have f: "inv_flight s" and p: "inv_phase s" and sel: "inv_selected s" by simp_all
  from f assms(2) have t: "tasks s = []" and q: "elevatorQueue s = []"
    by (auto simp: inv_flight_def)
  from p t have m: "\<not> isMoving s" and d: "direction s = None" by (simp_all add: inv_phase_def)
  from sel t q have e: "selectedFloors s = {}" by (simp add: inv_selected_def)
  have open_case: "handleFloorSelect F s = initAudio s" if "isDoorOpen s"
    using that m assms(3) by (simp add: handleFloorSelect_def Let_def)
  have closed_case: "run (same_floor_trip F) s =
              s\<lparr>audioLoaded := True, isDoorOpen := True, targetFloor := None,
                trips := trips s + 1,
                trace := trace s @ [(Some (trips s + 1), direction_changed Down),
                                    (Some (trips s + 1), floor_arrived F),
                                    (Some (trips s + 1), door_opened)]\<rparr>"
    if c: "\<not> isDoorOpen s"
  proof -
    let ?k = "trips s + 1"
    let ?t = "\<lparr>capturedFloor = F, capturedDoorOpen = False, target = F, trip = ?k,
               pc = AwaitAnnounce\<rparr>"
    let ?s1 = "s\<lparr>audioLoaded := True, selectedFloors := {F}, isProcessing := True,
                  targetFloor := Some F, trips := ?k, direction := Some Down,
                  trace := trace s @ [(Some ?k, direction_changed Down)], tasks := [?t]\<rparr>"
    let ?s2 = "?s1\<lparr>direction := None,
                  trace := trace s @ [(Some ?k, direction_changed Down), (Some ?k, floor_arrived F)],
                  tasks := [?t\<lparr>pc := AwaitArrival\<rparr>]\<rparr>"
    let ?s3 = "?s2\<lparr>isDoorOpen := True, selectedFloors := {},
                  trace := trace s @ [(Some ?k, direction_changed Down), (Some ?k, floor_arrived F),
                                      (Some ?k, door_opened)],
                  tasks := [?t\<lparr>pc := AwaitSettle\<rparr>]\<rparr>"
    have ia: "initAudio s = s\<lparr>audioLoaded := True\<rparr>"
      by (simp add: initAudio_def)
    have 1: "handleFloorSelect F s = ?s1"
      using c t q e assms(2,3)
      by (simp add: handleFloorSelect_def ia processQueue_def loopHead_def
          determineDirection_def emit_def plan_same_floor)
    have 2: "step 0 ?s1 = ?s2"
      using m by (simp add: step_def resume_def startMoving_def arrive_def emit_def pass_same_floor)
    have 3: "step 0 ?s2 = ?s3"
      by (simp add: step_def resume_def openDoor_def emit_def)
    have 4: "step 0 ?s3 = s\<lparr>audioLoaded := True, isDoorOpen := True, targetFloor := None,
                trips := ?k,
                trace := trace s @ [(Some ?k, direction_changed Down), (Some ?k, floor_arrived F),
                                    (Some ?k, door_opened)]\<rparr>"
      using t q e d assms(2) by (simp add: step_def resume_def loopHead_def)
    show ?thesis
      unfolding same_floor_trip_def by (simp only: run.simps apply_op.simps 1 2 3 4)
  qed
  from open_case closed_case show ?thesis by blast
qed

theorem same_floor_request_witness:
  "reachable init_state \<and> \<not> isProcessing init_state \<and> isDoorOpen init_state
   \<and> handleFloorSelect ''F1'' init_state = initAudio init_state
   \<and> reachable (run door_closed_idle init_state)
   \<and> \<not> isProcessing (run door_closed_idle init_state)
   \<and> \<not> isDoorOpen (run door_closed_idle init_state)
   \<and> currentFloor (run door_closed_idle init_state) = ''F1''
   \<and> trace (run (same_floor_trip ''F1'') (run door_closed_idle init_state)) =
       [(None, door_closed), (Some 1, direction_changed Down), (Some 1, floor_arrived ''F1''),
        (Some 1, door_opened)]
   \<and> currentFloor (run (same_floor_trip ''F1'') (run door_closed_idle init_state)) = ''F1''"
proof -
  have a: "\<not> isProcessing init_state" "isDoorOpen init_state" "''F1'' = currentFloor init_state"
    by (simp_all add: init_state_def)
  have r: "reachable (run door_closed_idle init_state)"
    by (rule reachable_scenario) (simp add: door_closed_idle_def)
  have b: "\<not> isProcessing (run door_closed_idle init_state)"
    "\<not> isDoorOpen (run door_closed_idle init_state)"
    "''F1'' = currentFloor (run door_closed_idle init_state)"
    "trips (run door_closed_idle init_state) = 0"
    "trace (run door_closed_idle init_state) = [(None, door_closed)]"
    unfolding door_closed_idle_def by code_simp+
  show ?thesis
    using same_floor_request[OF reachable.start a(1,3)] same_floor_request[OF r b(1,3)] a b r
    by (simp add: reachable.start)
qed

subsection \<open>Door and movement flags\<close>

text \<open>
  C3. The claim: the door is never open while the cabin moves. Two runs reach a state with
  \<open>isDoorOpen\<close> and \<open>isMoving\<close> both set. In the first the door-open button is pressed
  during the hold after the door has closed, when \<open>isMoving\<close> is still false. In the
  second the scheduler is started with the door closed by hand; its closure keeps
  \<open>isDoorOpen = false\<close>, so the second trip skips the closing of the door that the first
  trip has opened.
\<close>

theorem door_open_while_moving:
  "reachable (run open_in_hold init_state)
   \<and> isDoorOpen (run open_in_hold init_state) \<and> isMoving (run open_in_hold init_state)
   \<and> reachable (run closed_start init_state)
   \<and> isDoorOpen (run closed_start init_state) \<and> isMoving (run closed_start init_state)"
proof -
  have "reachable (run open_in_hold init_state)" "reachable (run closed_start init_state)"
    by (rule reachable_scenario, simp add: open_in_hold_def closed_start_def FLOORS_def)+
  moreover have "isDoorOpen (run open_in_hold init_state) \<and> isMoving (run open_in_hold init_state)"
    unfolding open_in_hold_def by code_simp
  moreover have "isDoorOpen (run closed_start init_state) \<and> isMoving (run closed_start init_state)"
    unfolding closed_start_def by code_simp
  ultimately show ?thesis by simp
qed

text \<open>
  C8, as the claim states it: direction is set only while the cabin moves. After the door
  has closed the direction is announced and stored, and \<open>isMoving\<close> is still false during
  the hold that follows.
\<close>

theorem direction_before_moving:
  "reachable (run announce_hold init_state)
   \<and> direction (run announce_hold init_state) = Some Up
   \<and> \<not> isMoving (run announce_hold init_state)"
proof -
  have "reachable (run announce_hold init_state)"
    by (rule reachable_scenario) (simp add: announce_hold_def FLOORS_def)
  moreover have "direction (run announce_hold init_state) = Some Up
      \<and> \<not> isMoving (run announce_hold init_state)"
    unfolding announce_hold_def by code_simp
  ultimately show ?thesis by simp
qed

text \<open>
  C8, amended. In every reachable state a moving cabin has a direction; a direction without
  movement occurs only while the one running task waits in the hold after the direction
  announcement; with no task running there is neither direction nor movement.
\<close>

theorem direction_while_moving:
  assumes "reachable s"
  shows "(isMoving s \<longrightarrow> direction s \<noteq> None)
       \<and> (direction s \<noteq> None \<and> \<not> isMoving s \<longrightarrow> map pc (tasks s) = [AwaitAnnounce])
       \<and> (tasks s = [] \<longrightarrow> direction s = None \<and> \<not> isMoving s)"
proof -
  from reachable_inv[OF assms] have f: "inv_flight s" and p: "inv_phase s" by simp_all
  show ?thesis
  proof (cases "tasks s")
    case Nil
    with p show ?thesis by (simp add: inv_phase_def)
  next
    case (Cons t ts)
    with f have ts: "ts = []" by (simp add: inv_flight_def)
    from p Cons have "phase_ok (pc t) s" by (simp add: inv_phase_def)
    then show ?thesis using Cons ts
      by (cases "pc t") (simp_all add: phase_ok_def)
  qed
qed

theorem direction_while_moving_witness:
  "reachable (run moving_now init_state) \<and> isMoving (run moving_now init_state)
   \<and> direction (run moving_now init_state) = Some Up
   \<and> reachable (run announce_hold init_state) \<and> \<not> isMoving (run announce_hold init_state)
   \<and> direction (run announce_hold init_state) \<noteq> None
   \<and> map pc (tasks (run announce_hold init_state)) = [AwaitAnnounce]"
proof -
  have r: "reachable (run moving_now init_state)" and r': "reachable (run announce_hold init_state)"
    by (rule reachable_scenario, simp add: moving_now_def announce_hold_def FLOORS_def)+
  have m: "isMoving (run moving_now init_state)" "direction (run moving_now init_state) = Some Up"
    unfolding moving_now_def by code_simp+
  have d: "\<not> isMoving (run announce_hold init_state)"
    "direction (run announce_hold init_state) \<noteq> None"
    unfolding announce_hold_def by code_simp+
  show ?thesis
    using direction_while_moving[OF r] direction_while_moving[OF r'] r r' m d by simp
qed

text \<open>
  C10. The two door buttons leave \<open>currentFloor\<close>, \<open>targetFloor\<close>, \<open>direction\<close>,
  \<open>isMoving\<close>, the queue and the selected set as they are; indeed the whole state apart
  from \<open>isDoorOpen\<close>, the audio preload flag and the event log. In a reachable state with
  the cabin moving they change nothing at all (the audio has been preloaded by the button
  press that started the trip).
\<close>

theorem door_requests_frame:
  assumes "h = handleDoorOpen \<or> h = handleDoorClose"
  shows "currentFloor (h s) = currentFloor s \<and> targetFloor (h s) = targetFloor s
       \<and> direction (h s) = direction s \<and> isMoving (h s) = isMoving s
       \<and> elevatorQueue (h s) = elevatorQueue s \<and> selectedFloors (h s) = selectedFloors s
       \<and> (h s)\<lparr>isDoorOpen := x, audioLoaded := y, trace := z\<rparr>
            = s\<lparr>isDoorOpen := x, audioLoaded := y, trace := z\<rparr>
       \<and> (reachable s \<and> isMoving s \<longrightarrow> h s = s)"
proof -
  have frame: "currentFloor (h s) = currentFloor s \<and> targetFloor (h s) = targetFloor s
       \<and> direction (h s) = direction s \<and> isMoving (h s) = isMoving s
       \<and> elevatorQueue (h s) = elevatorQueue s \<and> selectedFloors (h s) = selectedFloors s
       \<and> (h s)\<lparr>isDoorOpen := x, audioLoaded := y, trace := z\<rparr>
            = s\<lparr>isDoorOpen := x, audioLoaded := y, trace := z\<rparr>"
    using assms by (elim disjE) (simp_all add: handleDoorOpen_def handleDoorClose_def initAudio_def emit_def Let_def)
  have "h s = s" if r: "reachable s" and m: "isMoving s"
  proof -
    from reachable_inv[OF r] have p: "inv_phase s" and a: "inv_audio s" by simp_all
    from p m have "tasks s \<noteq> []" by (auto simp: inv_phase_def)
    with a have "audioLoaded s" by (simp add: inv_audio_def)
    with m assms show ?thesis
      by (auto simp: handleDoorOpen_def handleDoorClose_def initAudio_def Let_def)
  qed
  with frame show ?thesis by blast
qed

theorem door_requests_frame_witness:
  "reachable (run moving_now init_state) \<and> isMoving (run moving_now init_state)
   \<and> handleDoorOpen (run moving_now init_state) = run moving_now init_state
   \<and> handleDoorClose (run moving_now init_state) = run moving_now init_state"
proof -
  have r: "reachable (run moving_now init_state)"
    by (rule reachable_scenario) (simp add: moving_now_def FLOORS_def)
  have m: "isMoving (run moving_now init_state)"
    unfolding moving_now_def by code_simp
  show ?thesis
    using door_requests_frame[of handleDoorOpen "run moving_now init_state"]
      door_requests_frame[of handleDoorClose "run moving_now init_state"] r m
    by simp
qed

end
